theory Spec2Isabelle
  imports Main "HOL-Library.Sublist" "HOL-Library.Multiset"
begin

section \<open>Hamiltonian path and cycle search (src/src/hamilton_cycle.py)\<close>

text \<open>
  Vertices are Python integers. The \<open>vertices\<close> argument is a Python set; both algorithms
  only iterate it (\<open>for start in vertices\<close>, \<open>list(vertices)\<close>) and take its length, so it
  is modelled by the list of its elements in iteration order, which is duplicate-free
  (theorems about valid inputs assume \<open>distinct vertices\<close>). Edges are a list of pairs, in
  input order. A field that holds either a list or Python's \<open>None\<close> is an
  \<open>int list option\<close>: \<open>None\<close> is the absent value, \<open>Some []\<close> the empty list.
\<close>

type_synonym vertex = int
type_synonym edge = "int \<times> int"

record result =
  path_found :: bool
  path :: "vertex list option"
  cycle_found :: bool
  cycle :: "vertex list option"
  largest_cycle_size :: int

subsection \<open>hamilton_backtracking\<close>

text \<open>The three \<open>nonlocal\<close> accumulators of \<open>recurse\<close>.\<close>

record search_state =
  Hamiltonian_Path :: "vertex list"
  Hamiltonian_Cycle :: "vertex list"
  Largest_Cycle_Size :: int

definition check_for_cycle :: "edge list \<Rightarrow> vertex \<Rightarrow> vertex \<Rightarrow> bool" where
  "check_for_cycle edges cur_node start_node =
     list_ex (\<lambda>e. (cur_node = fst e \<and> start_node = snd e) \<or>
                   (cur_node = snd e \<and> start_node = fst e)) edges"

text \<open>The \<open>if\<close>/\<open>elif\<close> that picks the neighbour reached through one edge.\<close>

definition neighbor_of :: "edge \<Rightarrow> vertex \<Rightarrow> vertex list \<Rightarrow> vertex option" where
  "neighbor_of e cur_node visited =
     (if snd e = cur_node \<and> fst e \<notin> set visited then Some (fst e)
      else if fst e = cur_node \<and> snd e \<notin> set visited then Some (snd e)
      else None)"

definition endpoints :: "edge list \<Rightarrow> vertex set" where
  "endpoints es = fst ` set es \<union> snd ` set es"

text \<open>
  \<open>recurse\<close> is the nested function of the source; \<open>try_edges\<close> is its \<open>for edge in edges\<close>
  loop, over the edges still to be tried. \<open>visited.append\<close> / \<open>visited.pop\<close> around the
  recursive call become the argument \<open>visited @ [neighbor]\<close>. \<open>visited[0]\<close> is
  \<open>hd visited\<close>: the source only ever calls \<open>recurse\<close> with a non-empty list.
\<close>

function recurse :: "edge list \<Rightarrow> nat \<Rightarrow> vertex list \<Rightarrow> vertex \<Rightarrow> search_state \<Rightarrow> search_state"
  and try_edges :: "edge list \<Rightarrow> nat \<Rightarrow> vertex list \<Rightarrow> vertex \<Rightarrow> edge list \<Rightarrow> search_state \<Rightarrow> search_state"
where
  "recurse edges Num_Vertices visited cur_node st =
     (let st1 = (if length visited \<ge> 3 \<and> check_for_cycle edges cur_node (hd visited)
                 then st\<lparr>Largest_Cycle_Size :=
                          max (Largest_Cycle_Size st) (int (length visited))\<rparr>
                 else st)
      in if Num_Vertices = length visited
         then (let st2 = st1\<lparr>Hamiltonian_Path := visited\<rparr>
               in if check_for_cycle edges cur_node (hd visited)
                  then st2\<lparr>Hamiltonian_Cycle := visited @ [hd visited],
                           Largest_Cycle_Size := int (length visited)\<rparr>
                  else st2)
         else try_edges edges Num_Vertices visited cur_node edges st1)"
| "try_edges edges Num_Vertices visited cur_node [] st = st"
| "try_edges edges Num_Vertices visited cur_node (e # rest) st =
     (case neighbor_of e cur_node visited of
        None \<Rightarrow> try_edges edges Num_Vertices visited cur_node rest st
      | Some neighbor \<Rightarrow>
          (let st' = recurse edges Num_Vertices (visited @ [neighbor]) neighbor st
           in if Hamiltonian_Cycle st' \<noteq> [] then st'
              else try_edges edges Num_Vertices visited cur_node rest st'))"
  by pat_completeness auto

termination
proof (relation "inv_image (less_than <*lex*> less_than <*lex*> less_than)
    (\<lambda>x. case x of
        Inl (es, n, vis, c, st) \<Rightarrow> (card (endpoints es - set vis), 1::nat, 0::nat)
      | Inr (es, n, vis, c, rest, st) \<Rightarrow>
          (card ((endpoints es \<union> endpoints rest) - set vis), 0, length rest))", goal_cases)
  case 1
  show ?case by (intro wf_inv_image wf_lex_prod wf_less_than)
next
  case (2 edges Num_Vertices visited cur_node st x)
  show ?case by simp
next
  case (3 edges Num_Vertices visited cur_node e rest st)
  have "card ((endpoints edges \<union> endpoints rest) - set visited)
        \<le> card ((endpoints edges \<union> endpoints (e # rest)) - set visited)"
    by (rule card_mono) (auto simp: endpoints_def)
  then show ?case by (auto simp: le_less)
next
  case (4 edges Num_Vertices visited cur_node e rest st x2)
  then have fresh: "x2 \<in> endpoints (e # rest)" "x2 \<notin> set visited"
    by (auto simp: neighbor_of_def endpoints_def split: if_splits)
  have "card (endpoints edges - set (visited @ [x2]))
        < card ((endpoints edges \<union> endpoints (e # rest)) - set visited)"
  proof (rule psubset_card_mono)
    show "finite ((endpoints edges \<union> endpoints (e # rest)) - set visited)"
      by (simp add: endpoints_def)
    show "endpoints edges - set (visited @ [x2])
          \<subset> (endpoints edges \<union> endpoints (e # rest)) - set visited"
      using fresh by auto
  qed
  then show ?case by simp
next
  case (5 edges Num_Vertices visited cur_node e rest st x2 x)
  have "card ((endpoints edges \<union> endpoints rest) - set visited)
        \<le> card ((endpoints edges \<union> endpoints (e # rest)) - set visited)"
    by (rule card_mono) (auto simp: endpoints_def)
  then show ?case by (auto simp: le_less)
qed

text \<open>The \<open>for start in vertices\<close> loop with its \<open>break\<close>.\<close>

fun try_starts :: "edge list \<Rightarrow> nat \<Rightarrow> vertex list \<Rightarrow> search_state \<Rightarrow> search_state" where
  "try_starts edges Num_Vertices [] st = st"
| "try_starts edges Num_Vertices (start # rest) st =
     (let st' = recurse edges Num_Vertices [start] start st
      in if Hamiltonian_Cycle st' \<noteq> [] then st'
         else try_starts edges Num_Vertices rest st')"

definition hamilton_backtracking :: "vertex list \<Rightarrow> edge list \<Rightarrow> result" where
  "hamilton_backtracking vertices edges =
     (let st = try_starts edges (length vertices) vertices
                 \<lparr>Hamiltonian_Path = [], Hamiltonian_Cycle = [], Largest_Cycle_Size = 0\<rparr>
      in \<lparr>path_found = (Hamiltonian_Path st \<noteq> []),
          path = Some (Hamiltonian_Path st),
          cycle_found = (Hamiltonian_Cycle st \<noteq> []),
          cycle = Some (Hamiltonian_Cycle st),
          largest_cycle_size = Largest_Cycle_Size st\<rparr>)"

subsection \<open>The full-length sequences reached by the backtracking search\<close>

text \<open>
  To state which path the search leaves recorded, the following functions list, in the order
  in which the search reaches them, the visited sequences at which \<open>recurse\<close> enters its
  base case (\<open>Num_Vertices == len(visited)\<close>). They walk the same calls as \<open>recurse\<close>,
  \<open>try_edges\<close> and \<open>try_starts\<close>: the same neighbour choice per edge, and the same stop
  as soon as the state returned by \<open>recurse\<close> holds a Hamiltonian cycle. They read the
  accumulators only for that stop, so they do not depend on the recorded path.
\<close>

function full_length_visits ::
    "edge list \<Rightarrow> nat \<Rightarrow> vertex list \<Rightarrow> vertex \<Rightarrow> search_state \<Rightarrow> vertex list list"
  and full_length_visits_edges ::
    "edge list \<Rightarrow> nat \<Rightarrow> vertex list \<Rightarrow> vertex \<Rightarrow> edge list \<Rightarrow> search_state \<Rightarrow> vertex list list"
where
  "full_length_visits edges Num_Vertices visited cur_node st =
     (if Num_Vertices = length visited then [visited]
      else full_length_visits_edges edges Num_Vertices visited cur_node edges
             (if length visited \<ge> 3 \<and> check_for_cycle edges cur_node (hd visited)
              then st\<lparr>Largest_Cycle_Size :=
                       max (Largest_Cycle_Size st) (int (length visited))\<rparr>
              else st))"
| "full_length_visits_edges edges Num_Vertices visited cur_node [] st = []"
| "full_length_visits_edges edges Num_Vertices visited cur_node (e # rest) st =
     (case neighbor_of e cur_node visited of
        None \<Rightarrow> full_length_visits_edges edges Num_Vertices visited cur_node rest st
      | Some neighbor \<Rightarrow>
          full_length_visits edges Num_Vertices (visited @ [neighbor]) neighbor st @
          (if Hamiltonian_Cycle (recurse edges Num_Vertices (visited @ [neighbor]) neighbor st)
                \<noteq> [] then []
           else full_length_visits_edges edges Num_Vertices visited cur_node rest
                  (recurse edges Num_Vertices (visited @ [neighbor]) neighbor st)))"
  by pat_completeness auto
termination
proof (relation "inv_image (less_than <*lex*> less_than <*lex*> less_than)
    (\<lambda>x. case x of
        Inl (es, n, vis, c, st) \<Rightarrow> (card (endpoints es - set vis), 1::nat, 0::nat)
      | Inr (es, n, vis, c, rest, st) \<Rightarrow>
          (card ((endpoints es \<union> endpoints rest) - set vis), 0, length rest))", goal_cases)
  case 1
  show ?case by (intro wf_inv_image wf_lex_prod wf_less_than)
next
  case (2 edges Num_Vertices visited cur_node st)
  show ?case by simp
next
  case (3 edges Num_Vertices visited cur_node e rest st)
  have "card ((endpoints edges \<union> endpoints rest) - set visited)
        \<le> card ((endpoints edges \<union> endpoints (e # rest)) - set visited)"
    by (rule card_mono) (auto simp: endpoints_def)
  then show ?case by (auto simp: le_less)
next
  case (4 edges Num_Vertices visited cur_node e rest st x2)
  then have fresh: "x2 \<in> endpoints (e # rest)" "x2 \<notin> set visited"
    by (auto simp: neighbor_of_def endpoints_def split: if_splits)
  have "card (endpoints edges - set (visited @ [x2]))
        < card ((endpoints edges \<union> endpoints (e # rest)) - set visited)"
  proof (rule psubset_card_mono)
    show "finite ((endpoints edges \<union> endpoints (e # rest)) - set visited)"
      by (simp add: endpoints_def)
    show "endpoints edges - set (visited @ [x2])
          \<subset> (endpoints edges \<union> endpoints (e # rest)) - set visited"
      using fresh by auto
  qed
  then show ?case by simp
next
  case (5 edges Num_Vertices visited cur_node e rest st x2)
  have "card ((endpoints edges \<union> endpoints rest) - set visited)
        \<le> card ((endpoints edges \<union> endpoints (e # rest)) - set visited)"
    by (rule card_mono) (auto simp: endpoints_def)
  then show ?case by (auto simp: le_less)
qed

fun full_length_visits_starts ::
    "edge list \<Rightarrow> nat \<Rightarrow> vertex list \<Rightarrow> search_state \<Rightarrow> vertex list list" where
  "full_length_visits_starts edges Num_Vertices [] st = []"
| "full_length_visits_starts edges Num_Vertices (start # rest) st =
     full_length_visits edges Num_Vertices [start] start st @
     (if Hamiltonian_Cycle (recurse edges Num_Vertices [start] start st) \<noteq> [] then []
      else full_length_visits_starts edges Num_Vertices rest
             (recurse edges Num_Vertices [start] start st))"

definition full_length_paths :: "vertex list \<Rightarrow> edge list \<Rightarrow> vertex list list" where
  "full_length_paths vertices edges =
     full_length_visits_starts edges (length vertices) vertices
       \<lparr>Hamiltonian_Path = [], Hamiltonian_Cycle = [], Largest_Cycle_Size = 0\<rparr>"

subsection \<open>hamilton_bruteforce\<close>

text \<open>The lookup set built from the edge list: both orientations of every edge.\<close>

definition edge_set :: "edge list \<Rightarrow> (vertex \<times> vertex) set" where
  "edge_set edges = fold (\<lambda>(u, v) s. insert (v, u) (insert (u, v) s)) edges {}"

definition has_edge :: "edge list \<Rightarrow> vertex \<Rightarrow> vertex \<Rightarrow> bool" where
  "has_edge edges u v = ((u, v) \<in> edge_set edges)"

text \<open>\<open>for i in range(len(perm) - 1)\<close>: no index at all when \<open>perm\<close> has fewer than two elements.\<close>

definition is_valid_path :: "edge list \<Rightarrow> vertex list \<Rightarrow> bool" where
  "is_valid_path edges perm =
     list_all (\<lambda>i. has_edge edges (perm ! i) (perm ! (i + 1))) [0..<length perm - 1]"

text \<open>
  \<open>backtrack\<close> appends to the \<open>result\<close> list of the enclosing \<open>generate_permutations\<close>;
  the list is threaded through the loop over the indices of \<open>remaining\<close>.
\<close>

function backtrack :: "'a list \<Rightarrow> 'a list \<Rightarrow> 'a list list \<Rightarrow> 'a list list" where
  "backtrack current remaining result =
     (if remaining = [] then result @ [current]
      else fold (\<lambda>i res. backtrack (current @ [remaining ! i])
                           (take i remaining @ drop (i + 1) remaining) res)
             [0..<length remaining] result)"
  by pat_completeness auto
termination
  by (relation "measure (\<lambda>(current, remaining, result). length remaining)") auto

definition generate_permutations :: "'a list \<Rightarrow> 'a list list" where
  "generate_permutations arr = backtrack [] arr []"

function backtrack_subset :: "'a list \<Rightarrow> nat \<Rightarrow> 'a list \<Rightarrow> 'a list list \<Rightarrow> 'a list list" where
  "backtrack_subset arr start current result =
     fold (\<lambda>i res. backtrack_subset arr (i + 1) (current @ [arr ! i]) res)
       [start..<length arr]
       (if length current \<ge> 3 then result @ [current] else result)"
  by pat_completeness auto
termination
  by (relation "measure (\<lambda>(arr, start, current, result). length arr - start)") auto

definition generate_subsets :: "'a list \<Rightarrow> 'a list list" where
  "generate_subsets arr = backtrack_subset arr 0 [] []"

record brute_state =
  hamiltonian_path :: "vertex list"
  hamiltonian_cycle :: "vertex list"
  largest_size :: int

text \<open>The body of the first loop, over the permutations of the whole vertex list.\<close>

definition full_perm_step :: "edge list \<Rightarrow> nat \<Rightarrow> vertex list \<Rightarrow> brute_state \<Rightarrow> brute_state" where
  "full_perm_step edges n perm st =
     (if is_valid_path edges perm
      then (let st1 = (if hamiltonian_path st = [] then st\<lparr>hamiltonian_path := perm\<rparr> else st)
            in if length perm \<ge> 3 \<and> has_edge edges (last perm) (hd perm)
               then (let cycle_size = length perm;
                         st2 = st1\<lparr>largest_size := max (largest_size st1) (int cycle_size)\<rparr>
                     in if cycle_size = n \<and> hamiltonian_cycle st2 = []
                        then st2\<lparr>hamiltonian_cycle := perm @ [hd perm]\<rparr>
                        else st2)
               else st1)
      else st)"

text \<open>The body of the inner loop of the second phase, over the permutations of one subset.\<close>

definition subset_perm_step :: "edge list \<Rightarrow> vertex list \<Rightarrow> brute_state \<Rightarrow> brute_state" where
  "subset_perm_step edges perm st =
     (if is_valid_path edges perm \<and> has_edge edges (last perm) (hd perm)
      then st\<lparr>largest_size := max (largest_size st) (int (length perm))\<rparr>
      else st)"

definition subset_phase :: "edge list \<Rightarrow> vertex list \<Rightarrow> brute_state \<Rightarrow> brute_state" where
  "subset_phase edges vertices_list st =
     fold (\<lambda>subset st'. fold (subset_perm_step edges) (generate_permutations subset) st')
       (generate_subsets vertices_list) st"

definition hamilton_bruteforce :: "vertex list \<Rightarrow> edge list \<Rightarrow> result" where
  "hamilton_bruteforce vertices edges =
     (let vertices_list = vertices;
          n = length vertices_list;
          st0 = \<lparr>hamiltonian_path = [], hamiltonian_cycle = [], largest_size = 0\<rparr>;
          st1 = fold (full_perm_step edges n) (generate_permutations vertices_list) st0;
          st2 = (if largest_size st1 < int n then subset_phase edges vertices_list st1 else st1);
          path_exists = (length (hamiltonian_path st2) > 0);
          cycle_exists = (length (hamiltonian_cycle st2) > 0)
      in \<lparr>path_found = path_exists,
          path = (if \<not> path_exists then None else Some (hamiltonian_path st2)),
          cycle_found = cycle_exists,
          cycle = (if \<not> cycle_exists then None else Some (hamiltonian_cycle st2)),
          largest_cycle_size = largest_size st2\<rparr>)"

subsection \<open>Graph notions used to state the properties\<close>

text \<open>
  Two vertices are connected by an edge of the input when the pair occurs in the edge
  list in either orientation. A valid path has pairwise distinct vertices, each adjacent to
  the next. A reported cycle repeats its first vertex at the end; dropping that last
  element must leave a valid path whose ends are adjacent. A simple cycle of the graph is
  a sequence of at least three distinct vertices of the graph, each adjacent to the next
  and the last adjacent to the first.
\<close>

definition adjacent :: "edge list \<Rightarrow> vertex \<Rightarrow> vertex \<Rightarrow> bool" where
  "adjacent edges u v = ((u, v) \<in> set edges \<or> (v, u) \<in> set edges)"

definition simple_path :: "edge list \<Rightarrow> vertex list \<Rightarrow> bool" where
  "simple_path edges p = (distinct p \<and> successively (adjacent edges) p)"

definition closed_cycle :: "edge list \<Rightarrow> vertex list \<Rightarrow> bool" where
  "closed_cycle edges c =
     (butlast c \<noteq> [] \<and> last c = hd c \<and> simple_path edges (butlast c) \<and>
      adjacent edges (last (butlast c)) (hd (butlast c)))"

definition simple_cycle :: "edge list \<Rightarrow> vertex list \<Rightarrow> vertex list \<Rightarrow> bool" where
  "simple_cycle edges vertices c =
     (3 \<le> length c \<and> distinct c \<and> set c \<subseteq> set vertices \<and>
      successively (adjacent edges) c \<and> adjacent edges (last c) (hd c))"

text \<open>
  The preconditions of both algorithms: a non-empty vertex set, every edge endpoint a
  vertex, no self-loop.
\<close>

definition valid_input :: "vertex list \<Rightarrow> edge list \<Rightarrow> bool" where
  "valid_input vertices edges =
     (vertices \<noteq> [] \<and> distinct vertices \<and>
      list_all (\<lambda>e. fst e \<in> set vertices \<and> snd e \<in> set vertices \<and> fst e \<noteq> snd e) edges)"

text \<open>Invariants of the accumulators of \<open>recurse\<close>, at every call and return.\<close>

definition size_ok :: "nat \<Rightarrow> search_state \<Rightarrow> bool" where
  "size_ok N st = (0 \<le> Largest_Cycle_Size st \<and> Largest_Cycle_Size st \<le> int N \<and>
     (Largest_Cycle_Size st = int N \<longleftrightarrow> Hamiltonian_Cycle st \<noteq> []))"

definition shape_ok :: "edge list \<Rightarrow> search_state \<Rightarrow> bool" where
  "shape_ok edges st =
     (simple_path edges (Hamiltonian_Path st) \<and>
      (Hamiltonian_Cycle st \<noteq> [] \<longrightarrow>
         Hamiltonian_Path st \<noteq> [] \<and> closed_cycle edges (Hamiltonian_Cycle st)))"

text \<open>The test under which the first loop of \<open>hamilton_bruteforce\<close> counts a cycle.\<close>

definition closing :: "edge list \<Rightarrow> vertex list \<Rightarrow> bool" where
  "closing edges p =
     (is_valid_path edges p \<and> 3 \<le> length p \<and> has_edge edges (last p) (hd p))"

text \<open>The state of \<open>hamilton_bruteforce\<close> after its first loop.\<close>

definition first_phase :: "vertex list \<Rightarrow> edge list \<Rightarrow> brute_state" where
  "first_phase vs edges =
     fold (full_perm_step edges (length vs)) (generate_permutations vs)
       \<lparr>hamiltonian_path = [], hamiltonian_cycle = [], largest_size = 0\<rparr>"


declare backtrack.simps [simp del] backtrack_subset.simps [simp del]

section \<open>Auxiliary facts\<close>

subsection \<open>Backtracking search\<close>

lemma check_for_cycle_iff: "check_for_cycle edges c s = adjacent edges c s"
  by (force simp: check_for_cycle_def adjacent_def list_ex_iff)

lemma neighbor_of_adjacent:
  "neighbor_of e c vis = Some nb \<Longrightarrow> e \<in> set edges \<Longrightarrow> adjacent edges c nb \<and> nb \<notin> set vis"
  by (cases e) (auto simp: neighbor_of_def adjacent_def split: if_splits)

lemma simple_path_snoc:
  "simple_path edges vis \<Longrightarrow> vis \<noteq> [] \<Longrightarrow> adjacent edges (last vis) nb \<Longrightarrow> nb \<notin> set vis
   \<Longrightarrow> simple_path edges (vis @ [nb])"
  by (simp add: simple_path_def successively_append_iff)

lemma closed_cycle_snoc:
  "simple_path edges p \<Longrightarrow> p \<noteq> [] \<Longrightarrow> adjacent edges (last p) (hd p)
   \<Longrightarrow> closed_cycle edges (p @ [hd p])"
  by (simp add: closed_cycle_def)

lemma size_ok_recurse_try_edges:
  "size_ok N st \<Longrightarrow> length visited \<le> N \<Longrightarrow> size_ok N (recurse edges N visited cur st)"
  "size_ok N st \<Longrightarrow> length visited < N \<Longrightarrow> size_ok N (try_edges edges N visited cur rest st)"
proof (induction edges N visited cur st and edges N visited cur rest st rule: recurse_try_edges.induct)
  case (1 edges N visited cur st)
  show ?case
  proof (cases "N = length visited")
    case True
    with "1.prems" show ?thesis by (auto simp: size_ok_def Let_def)
  next
    case False
    let ?st1 = "if 3 \<le> length visited \<and> check_for_cycle edges cur (hd visited)
                then st\<lparr>Largest_Cycle_Size := max (Largest_Cycle_Size st) (int (length visited))\<rparr>
                else st"
    from False "1.prems" have lt: "length visited < N" by simp
    with "1.prems" have "size_ok N ?st1" by (auto simp: size_ok_def)
    from "1.IH" [OF refl False this lt] False show ?thesis by (simp add: Let_def)
  qed
next
  case (2 edges N visited cur st)
  then show ?case by simp
next
  case (3 edges N visited cur e rest st)
  show ?case
  proof (cases "neighbor_of e cur visited")
    case None
    with 3 show ?thesis by simp
  next
    case (Some nb)
    have a: "size_ok N (recurse edges N (visited @ [nb]) nb st)"
      using "3.IH"(2) [OF Some "3.prems"(1)] "3.prems"(2) by simp
    show ?thesis
    proof (cases "Hamiltonian_Cycle (recurse edges N (visited @ [nb]) nb st) = []")
      case True
      with "3.IH"(3) [OF Some refl _ a "3.prems"(2)] Some show ?thesis by (simp add: Let_def)
    next
      case False
      with a Some show ?thesis by (simp add: Let_def)
    qed
  qed
qed

lemma size_ok_try_starts:
  "size_ok N st \<Longrightarrow> 1 \<le> N \<Longrightarrow> size_ok N (try_starts edges N starts st)"
proof (induction starts arbitrary: st)
  case Nil
  then show ?case by simp
next
  case (Cons s starts)
  have "size_ok N (recurse edges N [s] s st)"
    using size_ok_recurse_try_edges(1) [of N st "[s]"] Cons.prems by simp
  with Cons show ?case by (simp add: Let_def)
qed

lemma shape_ok_recurse_try_edges:
  "shape_ok edges st \<Longrightarrow> visited \<noteq> [] \<Longrightarrow> last visited = cur \<Longrightarrow> simple_path edges visited
     \<Longrightarrow> shape_ok edges (recurse edges N visited cur st)"
  "shape_ok edges st \<Longrightarrow> visited \<noteq> [] \<Longrightarrow> last visited = cur \<Longrightarrow> simple_path edges visited
     \<Longrightarrow> set rest \<subseteq> set edges
     \<Longrightarrow> shape_ok edges (try_edges edges N visited cur rest st)"
proof (induction edges N visited cur st and edges N visited cur rest st rule: recurse_try_edges.induct)
  case (1 edges N visited cur st)
  let ?st1 = "if 3 \<le> length visited \<and> check_for_cycle edges cur (hd visited)
              then st\<lparr>Largest_Cycle_Size := max (Largest_Cycle_Size st) (int (length visited))\<rparr>
              else st"
  have st1: "shape_ok edges ?st1" using "1.prems"(1) by (simp add: shape_ok_def)
  show ?case
  proof (cases "N = length visited")
    case True
    with "1.prems" show ?thesis
      by (auto simp: shape_ok_def Let_def check_for_cycle_iff intro: closed_cycle_snoc)
  next
    case False
    from "1.IH" [OF refl False st1 "1.prems"(2,3,4)] False show ?thesis by (simp add: Let_def)
  qed
next
  case (2 edges N visited cur st)
  then show ?case by simp
next
  case (3 edges N visited cur e rest st)
  from "3.prems" have rest: "set rest \<subseteq> set edges" and e: "e \<in> set edges" by auto
  show ?case
  proof (cases "neighbor_of e cur visited")
    case None
    with "3.IH"(1) [OF None "3.prems"(1-4) rest] show ?thesis by simp
  next
    case (Some nb)
    from neighbor_of_adjacent [OF Some e] "3.prems"
    have sp: "simple_path edges (visited @ [nb])" by (auto intro: simple_path_snoc)
    have a: "shape_ok edges (recurse edges N (visited @ [nb]) nb st)"
      using "3.IH"(2) [OF Some "3.prems"(1) _ _ sp] by simp
    show ?thesis
    proof (cases "Hamiltonian_Cycle (recurse edges N (visited @ [nb]) nb st) = []")
      case True
      with "3.IH"(3) [OF Some refl _ a "3.prems"(2-4) rest] Some show ?thesis
        by (simp add: Let_def)
    next
      case False
      with a Some show ?thesis by (simp add: Let_def)
    qed
  qed
qed

lemma shape_ok_try_starts:
  "shape_ok edges st \<Longrightarrow> shape_ok edges (try_starts edges N starts st)"
proof (induction starts arbitrary: st)
  case Nil
  then show ?case by simp
next
  case (Cons s starts)
  have "shape_ok edges (recurse edges N [s] s st)"
    using shape_ok_recurse_try_edges(1) [of edges st "[s]" s N] Cons.prems
    by (simp add: simple_path_def)
  with Cons show ?case by (simp add: Let_def)
qed

subsection \<open>Enumeration of permutations and subsets\<close>

lemma edge_set_fold:
  "fold (\<lambda>(u, v) s. insert (v, u) (insert (u, v) s)) edges S = S \<union> set edges \<union> (set edges)\<inverse>"
  by (induction edges arbitrary: S) auto

lemma has_edge_iff: "has_edge edges u v = adjacent edges u v"
  by (auto simp: has_edge_def edge_set_def edge_set_fold adjacent_def)

lemma is_valid_path_iff: "is_valid_path edges p = successively (adjacent edges) p"
proof -
  have "(\<forall>i\<in>set [0..<length p - 1]. adjacent edges (p ! i) (p ! (i + 1)))
        = (\<forall>i. Suc i < length p \<longrightarrow> adjacent edges (p ! i) (p ! Suc i))"
    by (auto simp: less_diff_conv)
  then show ?thesis
    by (simp add: is_valid_path_def list_all_iff has_edge_iff successively_conv_nth)
qed

lemma fold_appends:
  assumes "\<And>i res. i \<in> set is \<Longrightarrow> \<exists>ps. f i res = res @ ps \<and> (\<forall>p\<in>set ps. Q p)"
  shows "\<exists>ps. fold f is res = res @ ps \<and> (\<forall>p\<in>set ps. Q p)"
  using assms
proof (induction "is" arbitrary: res)
  case Nil
  then show ?case by simp
next
  case (Cons i "is")
  from Cons.prems [of i res] obtain ps where ps: "f i res = res @ ps" "\<forall>p\<in>set ps. Q p"
    by auto
  from Cons.IH [of "res @ ps"] Cons.prems
  obtain qs where qs: "fold f is (res @ ps) = (res @ ps) @ qs" "\<forall>p\<in>set qs. Q p"
    by auto
  from ps qs have "fold f (i # is) res = res @ (ps @ qs) \<and> (\<forall>p\<in>set (ps @ qs). Q p)"
    by auto
  then show ?case by blast
qed

lemma mset_remove_nth:
  "i < length xs \<Longrightarrow> add_mset (xs ! i) (mset (take i xs @ drop (Suc i) xs)) = mset xs"
proof -
  assume "i < length xs"
  then have "mset xs = mset (take i xs @ xs ! i # drop (Suc i) xs)"
    using id_take_nth_drop [of i xs] by simp
  then show ?thesis by simp
qed

lemma backtrack_appends:
  "\<exists>ps. backtrack current remaining result = result @ ps \<and>
        (\<forall>p\<in>set ps. \<exists>q. p = current @ q \<and> mset q = mset remaining)"
proof (induction current remaining result rule: backtrack.induct)
  case (1 current remaining result)
  show ?case
  proof (cases "remaining = []")
    case True
    then show ?thesis by (subst backtrack.simps) simp
  next
    case False
    have step: "\<exists>ps. backtrack (current @ [remaining ! i])
                      (take i remaining @ drop (i + 1) remaining) res = res @ ps \<and>
                 (\<forall>p\<in>set ps. \<exists>q. p = current @ q \<and> mset q = mset remaining)"
      if i: "i \<in> set [0..<length remaining]" for i res
    proof -
      from "1.IH" [OF False i, of res] obtain ps where
        ps: "backtrack (current @ [remaining ! i])
               (take i remaining @ drop (i + 1) remaining) res = res @ ps"
        "\<forall>p\<in>set ps. \<exists>q. p = (current @ [remaining ! i]) @ q \<and>
             mset q = mset (take i remaining @ drop (i + 1) remaining)"
        by blast
      have "\<exists>q. p = current @ q \<and> mset q = mset remaining" if "p \<in> set ps" for p
      proof -
        from ps(2) that obtain q where q: "p = (current @ [remaining ! i]) @ q"
          "mset q = mset (take i remaining @ drop (i + 1) remaining)" by blast
        from i have "i < length remaining" by simp
        from mset_remove_nth [OF this] q(2) have "mset (remaining ! i # q) = mset remaining"
          by simp
        with q(1) show ?thesis by (intro exI [of _ "remaining ! i # q"]) simp
      qed
      with ps(1) show ?thesis by blast
    qed
    from fold_appends [of "[0..<length remaining]"
        "\<lambda>i res. backtrack (current @ [remaining ! i])
                    (take i remaining @ drop (i + 1) remaining) res"
        "\<lambda>p. \<exists>q. p = current @ q \<and> mset q = mset remaining" result, OF step]
    show ?thesis using False by (subst backtrack.simps) simp
  qed
qed

lemma generate_permutations_mset:
  "p \<in> set (generate_permutations arr) \<Longrightarrow> mset p = mset arr"
  using backtrack_appends [of "[]" arr "[]"] by (auto simp: generate_permutations_def)

lemma generate_permutations_length:
  "p \<in> set (generate_permutations arr) \<Longrightarrow> length p = length arr"
  by (auto dest: generate_permutations_mset mset_eq_length)

lemma backtrack_subset_appends:
  "\<exists>ss. backtrack_subset arr start current result = result @ ss \<and>
        (\<forall>s\<in>set ss. 3 \<le> length s \<and> (\<exists>t. s = current @ t \<and> subseq t (drop start arr)))"
proof (induction arr start current result rule: backtrack_subset.induct)
  case (1 arr start current result)
  let ?r0 = "if 3 \<le> length current then result @ [current] else result"
  let ?Q = "\<lambda>s. 3 \<le> length s \<and> (\<exists>t. s = current @ t \<and> subseq t (drop start arr))"
  have step: "\<exists>ss. backtrack_subset arr (i + 1) (current @ [arr ! i]) res = res @ ss \<and>
                (\<forall>s\<in>set ss. ?Q s)"
    if i: "i \<in> set [start..<length arr]" for i res
  proof -
    from "1.IH" [OF i, of res] obtain ss where
      ss: "backtrack_subset arr (i + 1) (current @ [arr ! i]) res = res @ ss"
      "\<forall>s\<in>set ss. 3 \<le> length s \<and>
              (\<exists>t. s = (current @ [arr ! i]) @ t \<and> subseq t (drop (i + 1) arr))"
      by blast
    have "?Q s" if "s \<in> set ss" for s
    proof -
      from ss(2) that obtain t where t: "s = (current @ [arr ! i]) @ t"
        "subseq t (drop (i + 1) arr)" and len: "3 \<le> length s" by blast
      from i have il: "i < length arr" and si: "start \<le> i" by auto
      from t(2) have "subseq (arr ! i # t) (drop i arr)"
        using Cons_nth_drop_Suc [OF il] by (metis Suc_eq_plus1 subseq_Cons2)
      moreover have "drop start arr = take (i - start) (drop start arr) @ drop i arr"
        using si by (metis append_take_drop_id drop_drop le_add_diff_inverse2)
      ultimately have "subseq (arr ! i # t) (drop start arr)"
        by (metis subseq_drop_many)
      with t(1) have "\<exists>t. s = current @ t \<and> subseq t (drop start arr)"
        by (intro exI [of _ "arr ! i # t"]) simp
      with len show ?thesis by simp
    qed
    with ss(1) show ?thesis by blast
  qed
  have unfold: "backtrack_subset arr start current result =
      fold (\<lambda>i res. backtrack_subset arr (i + 1) (current @ [arr ! i]) res)
        [start..<length arr] ?r0"
    by (rule backtrack_subset.simps)
  from fold_appends [of "[start..<length arr]"
      "\<lambda>i res. backtrack_subset arr (i + 1) (current @ [arr ! i]) res" ?Q ?r0, OF step]
  obtain ss where ss: "backtrack_subset arr start current result = ?r0 @ ss"
    "\<forall>s\<in>set ss. ?Q s"
    unfolding unfold by blast
  show ?case
  proof (cases "3 \<le> length current")
    case True
    with ss have "backtrack_subset arr start current result = result @ (current # ss)"
      and "\<forall>s\<in>set (current # ss). ?Q s" by auto
    then show ?thesis by blast
  next
    case False
    with ss show ?thesis by auto
  qed
qed

lemma generate_subsets_subseq:
  "s \<in> set (generate_subsets arr) \<Longrightarrow> subseq s arr \<and> 3 \<le> length s"
  using backtrack_subset_appends [of arr 0 "[]" "[]"] by (auto simp: generate_subsets_def)

lemma hamiltonian_path_step:
  "hamiltonian_path (full_perm_step edges n p st) =
     (if is_valid_path edges p \<and> hamiltonian_path st = [] then p else hamiltonian_path st)"
  by (simp add: full_perm_step_def Let_def)

lemma hamiltonian_cycle_step:
  "hamiltonian_cycle (full_perm_step edges n p st) =
     (if closing edges p \<and> length p = n \<and> hamiltonian_cycle st = [] then p @ [hd p]
      else hamiltonian_cycle st)"
  by (simp add: full_perm_step_def closing_def Let_def)

lemma largest_size_step:
  "largest_size (full_perm_step edges n p st) =
     (if closing edges p then max (largest_size st) (int (length p)) else largest_size st)"
  by (simp add: full_perm_step_def closing_def Let_def)

lemma hamiltonian_path_fold:
  "\<forall>p\<in>set ps. p \<noteq> [] \<Longrightarrow>
   hamiltonian_path (fold (full_perm_step edges n) ps st) =
     (if hamiltonian_path st \<noteq> [] then hamiltonian_path st
      else case List.find (is_valid_path edges) ps of None \<Rightarrow> [] | Some p \<Rightarrow> p)"
  by (induction ps arbitrary: st) (simp_all add: hamiltonian_path_step)

lemma hamiltonian_cycle_fold:
  "\<forall>p\<in>set ps. length p = n \<Longrightarrow>
   hamiltonian_cycle (fold (full_perm_step edges n) ps st) =
     (if hamiltonian_cycle st \<noteq> [] then hamiltonian_cycle st
      else case List.find (closing edges) ps of None \<Rightarrow> [] | Some p \<Rightarrow> p @ [hd p])"
  by (induction ps arbitrary: st) (simp_all add: hamiltonian_cycle_step)

lemma largest_size_fold:
  "\<forall>p\<in>set ps. length p = n \<Longrightarrow>
   largest_size (fold (full_perm_step edges n) ps st) =
     (if \<exists>p\<in>set ps. closing edges p then max (largest_size st) (int n)
      else largest_size st)"
  by (induction ps arbitrary: st) (auto simp: largest_size_step)

subsection \<open>Second phase of the enumerator\<close>

lemma subset_perm_fold_paths:
  "hamiltonian_path (fold (subset_perm_step edges) ps st) = hamiltonian_path st \<and>
   hamiltonian_cycle (fold (subset_perm_step edges) ps st) = hamiltonian_cycle st"
  by (induction ps arbitrary: st) (simp_all add: subset_perm_step_def)

lemma subset_perm_fold_mono:
  "largest_size st \<le> largest_size (fold (subset_perm_step edges) ps st)"
proof (induction ps arbitrary: st)
  case Nil
  show ?case by simp
next
  case (Cons p ps)
  have "largest_size st \<le> largest_size (subset_perm_step edges p st)"
    by (simp add: subset_perm_step_def)
  also have "\<dots> \<le> largest_size (fold (subset_perm_step edges) ps (subset_perm_step edges p st))"
    by (rule Cons.IH)
  finally show ?case by simp
qed

lemma subset_perm_fold_bound:
  "largest_size st \<le> b \<Longrightarrow>
   \<forall>p\<in>set ps. is_valid_path edges p \<and> has_edge edges (last p) (hd p) \<longrightarrow> int (length p) \<le> b
   \<Longrightarrow> largest_size (fold (subset_perm_step edges) ps st) \<le> b"
  by (induction ps arbitrary: st) (simp_all add: subset_perm_step_def)

lemma subsets_fold_paths:
  "hamiltonian_path (fold (\<lambda>subset. fold (subset_perm_step edges) (generate_permutations subset))
      ss st) = hamiltonian_path st \<and>
   hamiltonian_cycle (fold (\<lambda>subset. fold (subset_perm_step edges) (generate_permutations subset))
      ss st) = hamiltonian_cycle st"
  by (induction ss arbitrary: st) (simp_all add: subset_perm_fold_paths)

lemma subsets_fold_mono:
  "largest_size st \<le> largest_size
     (fold (\<lambda>subset. fold (subset_perm_step edges) (generate_permutations subset)) ss st)"
proof (induction ss arbitrary: st)
  case Nil
  show ?case by simp
next
  case (Cons s ss)
  have "largest_size st \<le> largest_size (fold (subset_perm_step edges) (generate_permutations s) st)"
    by (rule subset_perm_fold_mono)
  also note Cons.IH [of "fold (subset_perm_step edges) (generate_permutations s) st"]
  finally show ?case by simp
qed

lemma subsets_fold_bound:
  "largest_size st \<le> b \<Longrightarrow>
   \<forall>s\<in>set ss. \<forall>p\<in>set (generate_permutations s).
      is_valid_path edges p \<and> has_edge edges (last p) (hd p) \<longrightarrow> int (length p) \<le> b
   \<Longrightarrow> largest_size
         (fold (\<lambda>subset. fold (subset_perm_step edges) (generate_permutations subset)) ss st) \<le> b"
proof (induction ss arbitrary: st)
  case Nil
  then show ?case by simp
next
  case (Cons s ss)
  from Cons.prems
  have "largest_size (fold (subset_perm_step edges) (generate_permutations s) st) \<le> b"
    by (intro subset_perm_fold_bound) auto
  from Cons.IH [OF this] Cons.prems(2) show ?case by simp
qed

lemma subset_phase_paths:
  "hamiltonian_path (subset_phase edges vs st) = hamiltonian_path st \<and>
   hamiltonian_cycle (subset_phase edges vs st) = hamiltonian_cycle st"
  by (simp add: subset_phase_def subsets_fold_paths)

lemma subset_phase_mono: "largest_size st \<le> largest_size (subset_phase edges vs st)"
  unfolding subset_phase_def by (rule subsets_fold_mono)

lemma subset_phase_below:
  assumes st: "largest_size st < int (length vs)"
    and none: "\<forall>p\<in>set (generate_permutations vs). \<not> closing edges p"
  shows "largest_size (subset_phase edges vs st) < int (length vs)"
proof -
  have "int (length p) \<le> int (length vs) - 1"
    if s: "s \<in> set (generate_subsets vs)" and p: "p \<in> set (generate_permutations s)"
      and c: "is_valid_path edges p \<and> has_edge edges (last p) (hd p)" for s p
  proof (rule ccontr)
    assume "\<not> int (length p) \<le> int (length vs) - 1"
    then have ge: "length vs \<le> length p" by simp
    from generate_subsets_subseq [OF s] have sub: "subseq s vs" and three: "3 \<le> length s"
      by simp_all
    from generate_permutations_length [OF p] have lp: "length p = length s" .
    from sub have "length s \<le> length vs" by (rule list_emb_length)
    with ge lp have "length s = length vs" by simp
    with sub have "s = vs" by (rule subseq_same_length)
    with p none have "\<not> closing edges p" by simp
    with c three lp show False by (simp add: closing_def)
  qed
  then have "largest_size (subset_phase edges vs st) \<le> int (length vs) - 1"
    unfolding subset_phase_def using st by (intro subsets_fold_bound) auto
  then show ?thesis by simp
qed

lemma hamilton_bruteforce_phases:
  "hamilton_bruteforce vs edges =
     (let st1 = first_phase vs edges;
          st2 = (if largest_size st1 < int (length vs) then subset_phase edges vs st1 else st1)
      in \<lparr>path_found = (hamiltonian_path st1 \<noteq> []),
          path = (if hamiltonian_path st1 = [] then None else Some (hamiltonian_path st1)),
          cycle_found = (hamiltonian_cycle st1 \<noteq> []),
          cycle = (if hamiltonian_cycle st1 = [] then None else Some (hamiltonian_cycle st1)),
          largest_cycle_size = largest_size st2\<rparr>)"
  by (simp add: hamilton_bruteforce_def first_phase_def Let_def subset_phase_paths)

lemma first_phase_path:
  "vs \<noteq> [] \<Longrightarrow> hamiltonian_path (first_phase vs edges) =
     (case List.find (is_valid_path edges) (generate_permutations vs) of
        None \<Rightarrow> [] | Some p \<Rightarrow> p)"
  unfolding first_phase_def
  by (subst hamiltonian_path_fold) (auto dest: generate_permutations_length)

lemma first_phase_cycle:
  "hamiltonian_cycle (first_phase vs edges) =
     (case List.find (closing edges) (generate_permutations vs) of
        None \<Rightarrow> [] | Some p \<Rightarrow> p @ [hd p])"
  unfolding first_phase_def
  by (subst hamiltonian_cycle_fold) (auto dest: generate_permutations_length)

lemma first_phase_largest:
  "largest_size (first_phase vs edges) =
     (if \<exists>p\<in>set (generate_permutations vs). closing edges p then int (length vs) else 0)"
  unfolding first_phase_def
  by (subst largest_size_fold) (auto dest: generate_permutations_length)

lemma bruteforce_size_ok:
  assumes "vs \<noteq> []"
  shows "0 \<le> largest_cycle_size (hamilton_bruteforce vs edges) \<and>
         largest_cycle_size (hamilton_bruteforce vs edges) \<le> int (length vs) \<and>
         (largest_cycle_size (hamilton_bruteforce vs edges) = int (length vs)
            \<longleftrightarrow> cycle_found (hamilton_bruteforce vs edges))"
proof (cases "\<exists>p\<in>set (generate_permutations vs). closing edges p")
  case True
  then have "List.find (closing edges) (generate_permutations vs) \<noteq> None"
    by (auto simp: find_None_iff)
  with True show ?thesis
    by (auto simp: hamilton_bruteforce_phases first_phase_largest first_phase_cycle Let_def)
next
  case False
  then have none: "List.find (closing edges) (generate_permutations vs) = None"
    by (auto simp: find_None_iff)
  let ?st1 = "first_phase vs edges"
  from False have l1: "largest_size ?st1 = 0" by (simp add: first_phase_largest)
  with assms have lt: "largest_size ?st1 < int (length vs)" by simp
  from False have "\<forall>p\<in>set (generate_permutations vs). \<not> closing edges p" by simp
  from subset_phase_below [OF lt this] subset_phase_mono [of ?st1 edges vs] l1 lt none
  show ?thesis
    by (simp add: hamilton_bruteforce_phases first_phase_cycle Let_def)
qed

lemma first_phase_path_cases:
  "hamiltonian_path (first_phase vs edges) = [] \<or>
   (hamiltonian_path (first_phase vs edges) \<in> set (generate_permutations vs) \<and>
    is_valid_path edges (hamiltonian_path (first_phase vs edges)))"
proof (cases "vs = []")
  case True
  have "generate_permutations ([] :: vertex list) = [[]]"
    by (simp add: generate_permutations_def backtrack.simps)
  with True show ?thesis by (simp add: first_phase_def hamiltonian_path_step)
next
  case False
  show ?thesis
  proof (cases "List.find (is_valid_path edges) (generate_permutations vs)")
    case None
    with False show ?thesis by (simp add: first_phase_path)
  next
    case (Some p)
    then have "p \<in> set (generate_permutations vs) \<and> is_valid_path edges p"
      by (auto simp: find_Some_iff)
    with False Some show ?thesis by (simp add: first_phase_path)
  qed
qed

lemma closing_closed_cycle:
  assumes "distinct vs" "p \<in> set (generate_permutations vs)" "closing edges p"
  shows "closed_cycle edges (p @ [hd p])"
proof -
  from assms(1,2) have "distinct p"
    using generate_permutations_mset mset_eq_imp_distinct_iff by blast
  with assms(3) show ?thesis
    by (intro closed_cycle_snoc)
       (auto simp: closing_def simple_path_def is_valid_path_iff has_edge_iff)
qed

lemma backtracking_state:
  "hamilton_backtracking vertices edges =
     (let st = try_starts edges (length vertices) vertices
                 \<lparr>Hamiltonian_Path = [], Hamiltonian_Cycle = [], Largest_Cycle_Size = 0\<rparr>
      in \<lparr>path_found = (Hamiltonian_Path st \<noteq> []),
          path = Some (Hamiltonian_Path st),
          cycle_found = (Hamiltonian_Cycle st \<noteq> []),
          cycle = Some (Hamiltonian_Cycle st),
          largest_cycle_size = Largest_Cycle_Size st\<rparr>)"
  by (rule hamilton_backtracking_def)

lemma backtracking_shape_ok:
  "shape_ok edges (try_starts edges N vertices
     \<lparr>Hamiltonian_Path = [], Hamiltonian_Cycle = [], Largest_Cycle_Size = 0\<rparr>)"
  by (rule shape_ok_try_starts) (simp add: shape_ok_def simple_path_def)

lemma backtracking_size_ok:
  assumes "vertices \<noteq> []"
  shows "size_ok (length vertices) (try_starts edges (length vertices) vertices
     \<lparr>Hamiltonian_Path = [], Hamiltonian_Cycle = [], Largest_Cycle_Size = 0\<rparr>)"
proof (rule size_ok_try_starts)
  from assms show "1 \<le> length vertices" by (cases vertices) simp_all
  with assms show "size_ok (length vertices)
     \<lparr>Hamiltonian_Path = [], Hamiltonian_Cycle = [], Largest_Cycle_Size = 0\<rparr>"
    by (simp add: size_ok_def)
qed

lemma fold_keeps:
  assumes app: "\<And>i res. \<exists>ps. f i res = res @ ps"
    and hit: "i \<in> set is" "\<And>res. y \<in> set (f i res)"
  shows "y \<in> set (fold f is res)"
  using hit(1)
proof (induction "is" arbitrary: res)
  case Nil
  then show ?case by simp
next
  case (Cons j js)
  have stays: "y \<in> set (fold f js r)" if "y \<in> set r" for r
    using that
  proof (induction js arbitrary: r)
    case Nil
    then show ?case by simp
  next
    case (Cons k ks)
    from app [of k r] obtain ps where "f k r = r @ ps" by blast
    with Cons.prems have "y \<in> set (f k r)" by simp
    from Cons.IH [OF this] show ?case by simp
  qed
  show ?case
  proof (cases "j = i")
    case True
    with hit(2) [of res] have "y \<in> set (f j res)" by simp
    from stays [OF this] show ?thesis by simp
  next
    case False
    with Cons.prems have "i \<in> set js" by simp
    from Cons.IH [OF this] show ?thesis by simp
  qed
qed

lemma backtrack_complete:
  "mset q = mset remaining \<Longrightarrow> current @ q \<in> set (backtrack current remaining result)"
proof (induction current remaining result arbitrary: q rule: backtrack.induct)
  case (1 current remaining result)
  show ?case
  proof (cases "remaining = []")
    case True
    with "1.prems" show ?thesis by (subst backtrack.simps) simp
  next
    case False
    with "1.prems" obtain x q' where q: "q = x # q'" by (cases q) auto
    with "1.prems" have "x \<in> set remaining" by (metis list.set_intros(1) mset_eq_setD)
    then obtain i where i: "i < length remaining" "remaining ! i = x"
      by (auto simp: in_set_conv_nth)
    from mset_remove_nth [OF i(1)] "1.prems" q i(2)
    have "add_mset x (mset q') = add_mset x (mset (take i remaining @ drop (i + 1) remaining))"
      by simp
    then have q': "mset q' = mset (take i remaining @ drop (i + 1) remaining)" by simp
    have mem: "i \<in> set [0..<length remaining]" using i(1) by simp
    have hit: "current @ q \<in> set (backtrack (current @ [remaining ! i])
                 (take i remaining @ drop (i + 1) remaining) res)" for res
      using "1.IH" [OF False mem q', of res] q i(2) by simp
    have app: "\<exists>ps. backtrack (current @ [remaining ! j])
                 (take j remaining @ drop (j + 1) remaining) res = res @ ps" for j res
      using backtrack_appends by blast
    from fold_keeps [of "\<lambda>j res. backtrack (current @ [remaining ! j])
                 (take j remaining @ drop (j + 1) remaining) res", OF app mem hit, of result]
    show ?thesis using False by (subst backtrack.simps) simp
  qed
qed

lemma generate_permutations_set:
  "set (generate_permutations arr) = {p. mset p = mset arr}"
  using backtrack_complete [of _ arr "[]" "[]"]
  by (auto simp: generate_permutations_def [symmetric] dest: generate_permutations_mset)

lemma generate_subsets_small: "length vs < 3 \<Longrightarrow> generate_subsets vs = []"
proof (rule ccontr)
  assume small: "length vs < 3" and "generate_subsets vs \<noteq> []"
  then obtain s where "s \<in> set (generate_subsets vs)" by (cases "generate_subsets vs") auto
  from generate_subsets_subseq [OF this] have "3 \<le> length s" "length s \<le> length vs"
    by (auto dest: list_emb_length)
  with small show False by simp
qed

lemma bruteforce_small_graph:
  assumes "length vertices < 3"
  shows "\<not> cycle_found (hamilton_bruteforce vertices edges) \<and>
         cycle (hamilton_bruteforce vertices edges) = None \<and>
         largest_cycle_size (hamilton_bruteforce vertices edges) = 0"
proof -
  have none: "\<not> closing edges p" if "p \<in> set (generate_permutations vertices)" for p
    using generate_permutations_length [OF that] assms by (simp add: closing_def)
  then have f: "List.find (closing edges) (generate_permutations vertices) = None"
    by (auto simp: find_None_iff)
  from none have l: "largest_size (first_phase vertices edges) = 0"
    by (auto simp: first_phase_largest)
  have "subset_phase edges vertices (first_phase vertices edges) = first_phase vertices edges"
    by (simp add: subset_phase_def generate_subsets_small [OF assms])
  then have "(if largest_size (first_phase vertices edges) < int (length vertices)
              then subset_phase edges vertices (first_phase vertices edges)
              else first_phase vertices edges) = first_phase vertices edges"
    by (simp only: if_cancel)
  with l have "largest_cycle_size (hamilton_bruteforce vertices edges) = 0"
    by (simp only: hamilton_bruteforce_phases Let_def result.simps)
  moreover have "hamiltonian_cycle (first_phase vertices edges) = []"
    by (simp add: first_phase_cycle f)
  then have "\<not> cycle_found (hamilton_bruteforce vertices edges) \<and>
             cycle (hamilton_bruteforce vertices edges) = None"
    by (simp add: hamilton_bruteforce_phases Let_def)
  ultimately show ?thesis by simp
qed

lemma simple_cycle_length:
  assumes "simple_cycle edges vertices c"
  shows "3 \<le> length c \<and> length c \<le> length vertices"
proof -
  from assms have d: "distinct c" and sub: "set c \<subseteq> set vertices" and three: "3 \<le> length c"
    by (simp_all add: simple_cycle_def)
  from d have "length c = card (set c)" by (simp add: distinct_card)
  also from sub have "\<dots> \<le> card (set vertices)" by (intro card_mono) simp_all
  also have "\<dots> \<le> length vertices" by (rule card_length)
  finally show ?thesis using three by simp
qed

subsection \<open>The recorded path and the sequences reached\<close>

lemma recorded_is_last_visit:
  "Hamiltonian_Path (recurse edges N visited cur st) =
     (if full_length_visits edges N visited cur st = [] then Hamiltonian_Path st
      else last (full_length_visits edges N visited cur st))"
  "Hamiltonian_Path (try_edges edges N visited cur rest st) =
     (if full_length_visits_edges edges N visited cur rest st = [] then Hamiltonian_Path st
      else last (full_length_visits_edges edges N visited cur rest st))"
proof (induction edges N visited cur st and edges N visited cur rest st
    rule: recurse_try_edges.induct)
  case (1 edges N visited cur st)
  show ?case
  proof (cases "N = length visited")
    case True
    then show ?thesis by (simp add: Let_def)
  next
    case False
    from "1.IH" [OF refl False] False show ?thesis by (simp add: Let_def)
  qed
next
  case (2 edges N visited cur st)
  show ?case by simp
next
  case (3 edges N visited cur e rest st)
  show ?case
  proof (cases "neighbor_of e cur visited")
    case None
    with "3.IH"(1) show ?thesis by simp
  next
    case (Some nb)
    note a = "3.IH"(2) [OF Some]
    show ?thesis
    proof (cases "Hamiltonian_Cycle (recurse edges N (visited @ [nb]) nb st) = []")
      case True
      from "3.IH"(3) [OF Some refl] True a Some show ?thesis by (simp add: Let_def)
    next
      case False
      with a Some show ?thesis by (simp add: Let_def)
    qed
  qed
qed

lemma recorded_is_last_visit_starts:
  "Hamiltonian_Path (try_starts edges N starts st) =
     (if full_length_visits_starts edges N starts st = [] then Hamiltonian_Path st
      else last (full_length_visits_starts edges N starts st))"
proof (induction starts arbitrary: st)
  case Nil
  show ?case by simp
next
  case (Cons s starts)
  show ?case
    using Cons.IH [of "recurse edges N [s] s st"] recorded_is_last_visit(1) [of edges N "[s]" s st]
    by (simp add: Let_def)
qed

lemma full_length_visits_sound:
  "p \<in> set (full_length_visits edges N visited cur st) \<Longrightarrow> length p = N \<and> prefix visited p"
  "p \<in> set (full_length_visits_edges edges N visited cur rest st)
     \<Longrightarrow> length p = N \<and> strict_prefix visited p"
proof (induction edges N visited cur st and edges N visited cur rest st
    arbitrary: p and p rule: full_length_visits_full_length_visits_edges.induct)
  case (1 edges N visited cur st)
  show ?case
  proof (cases "N = length visited")
    case True
    with "1.prems" show ?thesis by simp
  next
    case False
    with "1.prems" have "p \<in> set (full_length_visits_edges edges N visited cur edges
        (if 3 \<le> length visited \<and> check_for_cycle edges cur (hd visited)
         then st\<lparr>Largest_Cycle_Size := max (Largest_Cycle_Size st) (int (length visited))\<rparr>
         else st))"
      by (simp only: full_length_visits.simps if_False)
    from "1.IH" [OF False this] show ?thesis by (simp add: strict_prefix_def)
  qed
next
  case (2 edges N visited cur st)
  then show ?case by simp
next
  case (3 edges N visited cur e rest st)
  show ?case
  proof (cases "neighbor_of e cur visited")
    case None
    with "3.prems" "3.IH"(1) show ?thesis by simp
  next
    case (Some nb)
    with "3.prems" consider
      (a) "p \<in> set (full_length_visits edges N (visited @ [nb]) nb st)"
      | (b) "Hamiltonian_Cycle (recurse edges N (visited @ [nb]) nb st) = []"
          "p \<in> set (full_length_visits_edges edges N visited cur rest
                      (recurse edges N (visited @ [nb]) nb st))"
      by (auto split: if_splits)
    then show ?thesis
    proof cases
      case a
      from "3.IH"(2) [OF Some this] show ?thesis
        by (auto simp: strict_prefix_def prefix_def)
    next
      case b
      from "3.IH"(3) [OF Some _ b(2)] b(1) show ?thesis by simp
    qed
  qed
qed

lemma full_length_visits_starts_sound:
  "p \<in> set (full_length_visits_starts edges N starts st)
     \<Longrightarrow> length p = N \<and> (\<exists>s\<in>set starts. prefix [s] p)"
proof (induction starts arbitrary: st)
  case Nil
  then show ?case by simp
next
  case (Cons s starts)
  from Cons.prems consider
    (a) "p \<in> set (full_length_visits edges N [s] s st)"
    | (b) "p \<in> set (full_length_visits_starts edges N starts (recurse edges N [s] s st))"
    by (auto split: if_splits)
  then show ?case
  proof cases
    case a
    from full_length_visits_sound(1) [OF this] show ?thesis by simp
  next
    case b
    from Cons.IH [OF this] show ?thesis by auto
  qed
qed

section \<open>The properties\<close>

text \<open>
  C4. For a non-empty vertex set, the largest cycle size returned by
  \<open>hamilton_backtracking\<close> and by \<open>hamilton_bruteforce\<close> lies between 0 and the number of
  vertices, and equals the number of vertices exactly when a Hamiltonian cycle is reported.
\<close>

theorem largest_cycle_size_bounds:
  assumes "vertices \<noteq> []"
  shows "(0 \<le> largest_cycle_size (hamilton_backtracking vertices edges) \<and>
          largest_cycle_size (hamilton_backtracking vertices edges) \<le> int (length vertices) \<and>
          (largest_cycle_size (hamilton_backtracking vertices edges) = int (length vertices)
             \<longleftrightarrow> cycle_found (hamilton_backtracking vertices edges))) \<and>
         (0 \<le> largest_cycle_size (hamilton_bruteforce vertices edges) \<and>
          largest_cycle_size (hamilton_bruteforce vertices edges) \<le> int (length vertices) \<and>
          (largest_cycle_size (hamilton_bruteforce vertices edges) = int (length vertices)
             \<longleftrightarrow> cycle_found (hamilton_bruteforce vertices edges)))"
proof
  from backtracking_size_ok [OF assms, of edges]
  show "0 \<le> largest_cycle_size (hamilton_backtracking vertices edges) \<and>
        largest_cycle_size (hamilton_backtracking vertices edges) \<le> int (length vertices) \<and>
        (largest_cycle_size (hamilton_backtracking vertices edges) = int (length vertices)
           \<longleftrightarrow> cycle_found (hamilton_backtracking vertices edges))"
    by (simp add: backtracking_state size_ok_def Let_def)
next
  from assms
  show "0 \<le> largest_cycle_size (hamilton_bruteforce vertices edges) \<and>
        largest_cycle_size (hamilton_bruteforce vertices edges) \<le> int (length vertices) \<and>
        (largest_cycle_size (hamilton_bruteforce vertices edges) = int (length vertices)
           \<longleftrightarrow> cycle_found (hamilton_bruteforce vertices edges))"
    by (rule bruteforce_size_ok)
qed

theorem largest_cycle_size_bounds_witness:
  "[1, 2, 3, 4] \<noteq> ([] :: vertex list) \<and>
   largest_cycle_size (hamilton_backtracking [1, 2, 3, 4] [(1, 2), (2, 3), (3, 1), (3, 4)]) \<le> 4 \<and>
   largest_cycle_size (hamilton_bruteforce [1, 2, 3, 4] [(1, 2), (2, 3), (3, 1), (3, 4)]) \<le> 4 \<and>
   (largest_cycle_size (hamilton_bruteforce [1, 2, 3, 4] [(1, 2), (2, 3), (3, 1), (3, 4)]) = 4
      \<longleftrightarrow> cycle_found (hamilton_bruteforce [1, 2, 3, 4] [(1, 2), (2, 3), (3, 1), (3, 4)]))"
proof -
  have ne: "[1, 2, 3, 4] \<noteq> ([] :: vertex list)" by simp
  from largest_cycle_size_bounds [OF ne, of "[(1, 2), (2, 3), (3, 1), (3, 4)]"] ne
  show ?thesis by simp
qed

text \<open>
  C10. In the result of either algorithm, a reported Hamiltonian cycle always comes with a
  reported Hamiltonian path: \<open>cycle_found\<close> implies \<open>path_found\<close>.
\<close>

theorem cycle_found_implies_path_found:
  "(cycle_found (hamilton_backtracking vertices edges)
      \<longrightarrow> path_found (hamilton_backtracking vertices edges)) \<and>
   (cycle_found (hamilton_bruteforce vertices edges)
      \<longrightarrow> path_found (hamilton_bruteforce vertices edges))"
proof
  from backtracking_shape_ok [of edges "length vertices" vertices]
  show "cycle_found (hamilton_backtracking vertices edges)
          \<longrightarrow> path_found (hamilton_backtracking vertices edges)"
    by (simp add: backtracking_state shape_ok_def Let_def)
next
  show "cycle_found (hamilton_bruteforce vertices edges)
          \<longrightarrow> path_found (hamilton_bruteforce vertices edges)"
  proof
    assume "cycle_found (hamilton_bruteforce vertices edges)"
    then have "hamiltonian_cycle (first_phase vertices edges) \<noteq> []"
      by (simp add: hamilton_bruteforce_phases Let_def)
    then obtain p where p: "List.find (closing edges) (generate_permutations vertices) = Some p"
      by (auto simp: first_phase_cycle split: option.splits)
    then have mem: "p \<in> set (generate_permutations vertices)" and cl: "closing edges p"
      by (auto simp: find_Some_iff)
    from generate_permutations_length [OF mem] cl have ne: "vertices \<noteq> []"
      by (auto simp: closing_def)
    from mem cl obtain q where
      q: "List.find (is_valid_path edges) (generate_permutations vertices) = Some q"
      by (cases "List.find (is_valid_path edges) (generate_permutations vertices)")
         (auto simp: find_None_iff closing_def)
    then have "q \<in> set (generate_permutations vertices)" by (auto simp: find_Some_iff)
    from generate_permutations_length [OF this] ne have "q \<noteq> []" by auto
    with q ne show "path_found (hamilton_bruteforce vertices edges)"
      by (simp add: hamilton_bruteforce_phases Let_def first_phase_path)
  qed
qed

theorem cycle_found_implies_path_found_witness:
  "cycle_found (hamilton_backtracking [1, 2, 3] [(1, 2), (2, 3), (3, 1)]) \<and>
   path_found (hamilton_backtracking [1, 2, 3] [(1, 2), (2, 3), (3, 1)]) \<and>
   cycle_found (hamilton_bruteforce [1, 2, 3] [(1, 2), (2, 3), (3, 1)]) \<and>
   path_found (hamilton_bruteforce [1, 2, 3] [(1, 2), (2, 3), (3, 1)])"
proof -
  have a: "cycle_found (hamilton_backtracking [1, 2, 3] [(1, 2), (2, 3), (3, 1)])"
    by code_simp
  have b: "cycle_found (hamilton_bruteforce [1, 2, 3] [(1, 2), (2, 3), (3, 1)])"
    by code_simp
  from cycle_found_implies_path_found [of "[1, 2, 3]" "[(1, 2), (2, 3), (3, 1)]"] a b
  show ?thesis by blast
qed

text \<open>
  C6. For duplicate-free vertices and both algorithms: a returned path has pairwise distinct
  vertices and every consecutive pair is connected by an edge of the input; a returned
  cycle ends with its first vertex, and without that last element it is such a path whose
  last and first vertices are connected by an edge.
\<close>

theorem returned_sequences_valid:
  assumes "distinct vertices"
  shows "(\<forall>p. path (hamilton_backtracking vertices edges) = Some p \<longrightarrow> simple_path edges p) \<and>
         (\<forall>c. cycle_found (hamilton_backtracking vertices edges) \<and>
              cycle (hamilton_backtracking vertices edges) = Some c \<longrightarrow> closed_cycle edges c) \<and>
         (\<forall>p. path (hamilton_bruteforce vertices edges) = Some p \<longrightarrow> simple_path edges p) \<and>
         (\<forall>c. cycle_found (hamilton_bruteforce vertices edges) \<and>
              cycle (hamilton_bruteforce vertices edges) = Some c \<longrightarrow> closed_cycle edges c)"
proof (intro conjI allI impI)
  fix p
  assume "path (hamilton_backtracking vertices edges) = Some p"
  with backtracking_shape_ok [of edges "length vertices" vertices]
  show "simple_path edges p"
    by (auto simp: backtracking_state shape_ok_def Let_def)
next
  fix c
  assume "cycle_found (hamilton_backtracking vertices edges) \<and>
          cycle (hamilton_backtracking vertices edges) = Some c"
  with backtracking_shape_ok [of edges "length vertices" vertices]
  show "closed_cycle edges c"
    by (auto simp: backtracking_state shape_ok_def Let_def)
next
  fix p
  assume "path (hamilton_bruteforce vertices edges) = Some p"
  then have p: "hamiltonian_path (first_phase vertices edges) = p" "p \<noteq> []"
    by (auto simp: hamilton_bruteforce_phases Let_def split: if_splits)
  with first_phase_path_cases [of vertices edges]
  have mem: "p \<in> set (generate_permutations vertices)" and ok: "is_valid_path edges p"
    by auto
  from mem assms have "distinct p"
    using generate_permutations_mset mset_eq_imp_distinct_iff by blast
  with ok show "simple_path edges p" by (simp add: simple_path_def is_valid_path_iff)
next
  fix c
  assume "cycle_found (hamilton_bruteforce vertices edges) \<and>
          cycle (hamilton_bruteforce vertices edges) = Some c"
  then have c: "hamiltonian_cycle (first_phase vertices edges) = c" "c \<noteq> []"
    by (auto simp: hamilton_bruteforce_phases Let_def split: if_splits)
  then obtain q where q: "List.find (closing edges) (generate_permutations vertices) = Some q"
    and cq: "c = q @ [hd q]"
    by (auto simp: first_phase_cycle split: option.splits)
  from q have "q \<in> set (generate_permutations vertices)" "closing edges q"
    by (auto simp: find_Some_iff)
  with assms cq show "closed_cycle edges c" by (simp add: closing_closed_cycle)
qed

theorem returned_sequences_valid_witness:
  "distinct [1, 2, 3, 4 :: vertex] \<and>
   simple_path [(1, 2), (1, 4), (2, 3), (2, 4), (3, 4)] [1, 2, 3, 4] \<and>
   closed_cycle [(1, 2), (1, 4), (2, 3), (2, 4), (3, 4)] [1, 2, 3, 4, 1]"
proof -
  have d: "distinct [1, 2, 3, 4 :: vertex]" by simp
  have r: "path (hamilton_bruteforce [1, 2, 3, 4] [(1, 2), (1, 4), (2, 3), (2, 4), (3, 4)])
             = Some [1, 2, 3, 4]"
    "cycle_found (hamilton_backtracking [1, 2, 3, 4] [(1, 2), (1, 4), (2, 3), (2, 4), (3, 4)])"
    "cycle (hamilton_backtracking [1, 2, 3, 4] [(1, 2), (1, 4), (2, 3), (2, 4), (3, 4)])
             = Some [1, 2, 3, 4, 1]"
    by code_simp+
  from returned_sequences_valid [OF d, of "[(1, 2), (1, 4), (2, 3), (2, 4), (3, 4)]"] r d
  show ?thesis by blast
qed

text \<open>
  C8. For a non-empty vertex list, the path returned by \<open>hamilton_bruteforce\<close> is the first
  permutation, in the order in which \<open>generate_permutations\<close> lists them, in which every
  consecutive pair of vertices is connected by an edge of the input (absent if there is
  none). The returned cycle is the first permutation that is such a path, has at least three
  vertices, whose last vertex is connected to its first by an edge of the input, and that
  has the full vertex count, with its first vertex appended (absent if there is none). The
  list produced by \<open>generate_permutations\<close> holds exactly the rearrangements of the vertex
  list.
\<close>

theorem bruteforce_first_permutation:
  assumes "vertices \<noteq> []"
  shows "path (hamilton_bruteforce vertices edges)
           = List.find (successively (adjacent edges)) (generate_permutations vertices) \<and>
         cycle (hamilton_bruteforce vertices edges)
           = map_option (\<lambda>p. p @ [hd p])
               (List.find (\<lambda>p. successively (adjacent edges) p \<and> 3 \<le> length p \<and>
                                adjacent edges (last p) (hd p) \<and>
                                length p = length vertices)
                  (generate_permutations vertices)) \<and>
         set (generate_permutations vertices) = {p. mset p = mset vertices}"
proof (intro conjI)
  have valid: "List.find (successively (adjacent edges)) (generate_permutations vertices)
               = List.find (is_valid_path edges) (generate_permutations vertices)"
    by (rule find_cong) (simp_all add: is_valid_path_iff)
  show "path (hamilton_bruteforce vertices edges)
          = List.find (successively (adjacent edges)) (generate_permutations vertices)"
    unfolding valid
  proof (cases "List.find (is_valid_path edges) (generate_permutations vertices)")
    case None
    with assms show "path (hamilton_bruteforce vertices edges)
        = List.find (is_valid_path edges) (generate_permutations vertices)"
      by (simp add: hamilton_bruteforce_phases Let_def first_phase_path)
  next
    case (Some q)
    then have "q \<in> set (generate_permutations vertices)" by (auto simp: find_Some_iff)
    from generate_permutations_length [OF this] assms have "q \<noteq> []" by auto
    with Some assms show "path (hamilton_bruteforce vertices edges)
        = List.find (is_valid_path edges) (generate_permutations vertices)"
      by (simp add: hamilton_bruteforce_phases Let_def first_phase_path)
  qed
next
  have same: "List.find (\<lambda>p. successively (adjacent edges) p \<and> 3 \<le> length p \<and>
                              adjacent edges (last p) (hd p) \<and> length p = length vertices)
                (generate_permutations vertices)
              = List.find (closing edges) (generate_permutations vertices)"
    by (rule find_cong)
       (auto simp: closing_def is_valid_path_iff has_edge_iff dest: generate_permutations_length)
  show "cycle (hamilton_bruteforce vertices edges)
          = map_option (\<lambda>p. p @ [hd p])
              (List.find (\<lambda>p. successively (adjacent edges) p \<and> 3 \<le> length p \<and>
                               adjacent edges (last p) (hd p) \<and>
                               length p = length vertices)
                 (generate_permutations vertices))"
    unfolding same
    by (cases "List.find (closing edges) (generate_permutations vertices)")
       (simp_all add: hamilton_bruteforce_phases Let_def first_phase_cycle)
next
  show "set (generate_permutations vertices) = {p. mset p = mset vertices}"
    by (rule generate_permutations_set)
qed

text \<open>
  On vertices 1 to 5 with edges 1-3, 3-5, 5-2, 2-4, 4-1, 3-4 the first permutation listed,
  1, 2, 3, 4, 5, is no path of the graph; the first that is one, 1, 3, 4, 2, 5, does not
  close; the first that closes is 1, 3, 5, 2, 4.
\<close>

theorem bruteforce_first_permutation_witness:
  "[1, 2, 3, 4, 5] \<noteq> ([] :: vertex list) \<and>
   hd (generate_permutations [1, 2, 3, 4, 5 :: vertex]) = [1, 2, 3, 4, 5] \<and>
   \<not> successively (adjacent [(1, 3), (3, 5), (5, 2), (2, 4), (4, 1), (3, 4)]) [1, 2, 3, 4, 5] \<and>
   path (hamilton_bruteforce [1, 2, 3, 4, 5] [(1, 3), (3, 5), (5, 2), (2, 4), (4, 1), (3, 4)])
     = Some [1, 3, 4, 2, 5] \<and>
   cycle (hamilton_bruteforce [1, 2, 3, 4, 5] [(1, 3), (3, 5), (5, 2), (2, 4), (4, 1), (3, 4)])
     = Some [1, 3, 5, 2, 4, 1]"
proof -
  have ne: "[1, 2, 3, 4, 5] \<noteq> ([] :: vertex list)" by simp
  have h: "hd (generate_permutations [1, 2, 3, 4, 5 :: vertex]) = [1, 2, 3, 4, 5]"
    by code_simp
  have n: "\<not> successively (adjacent [(1, 3), (3, 5), (5, 2), (2, 4), (4, 1), (3, 4)])
               [1, 2, 3, 4, 5]"
    by (simp add: adjacent_def)
  have f: "List.find (successively (adjacent [(1, 3), (3, 5), (5, 2), (2, 4), (4, 1), (3, 4)]))
             (generate_permutations [1, 2, 3, 4, 5])
           = Some [1, 3, 4, 2, 5]"
    by code_simp
  have g: "List.find
             (\<lambda>p. successively (adjacent [(1, 3), (3, 5), (5, 2), (2, 4), (4, 1), (3, 4)]) p \<and>
                  3 \<le> length p \<and>
                  adjacent [(1, 3), (3, 5), (5, 2), (2, 4), (4, 1), (3, 4)] (last p) (hd p) \<and>
                  length p = length [1, 2, 3, 4, 5 :: vertex])
             (generate_permutations [1, 2, 3, 4, 5])
           = Some [1, 3, 5, 2, 4]"
    by code_simp
  from bruteforce_first_permutation
         [OF ne, of "[(1, 3), (3, 5), (5, 2), (2, 4), (4, 1), (3, 4)]"]
  have "path (hamilton_bruteforce [1, 2, 3, 4, 5]
                [(1, 3), (3, 5), (5, 2), (2, 4), (4, 1), (3, 4)]) = Some [1, 3, 4, 2, 5]"
    and "cycle (hamilton_bruteforce [1, 2, 3, 4, 5]
                [(1, 3), (3, 5), (5, 2), (2, 4), (4, 1), (3, 4)]) = Some [1, 3, 5, 2, 4, 1]"
    unfolding f g by simp_all
  with ne h n show ?thesis by blast
qed

text \<open>
  C7 (as stated). The claim says that the first full-length path found for a start vertex
  stays recorded and that a later one replaces it only if none was set. On vertices
  1, 2, 3, 4 with edges 1-2, 2-3, 3-4, 2-4 and start vertex 1, the branch through 1, 2, 3
  records the path 1, 2, 3, 4; the next branch, through 1, 2, 4, is entered with that path
  set and leaves 1, 2, 4, 3 recorded, which is also what the whole search from start
  vertex 1 returns.
\<close>

theorem first_full_path_replaced:
  "Hamiltonian_Path (recurse [(1, 2), (2, 3), (3, 4), (2, 4)] 4 [1, 2, 3] 3
      \<lparr>Hamiltonian_Path = [], Hamiltonian_Cycle = [], Largest_Cycle_Size = 0\<rparr>)
     = [1, 2, 3, 4] \<and>
   Hamiltonian_Path (recurse [(1, 2), (2, 3), (3, 4), (2, 4)] 4 [1, 2, 4] 4
      (recurse [(1, 2), (2, 3), (3, 4), (2, 4)] 4 [1, 2, 3] 3
         \<lparr>Hamiltonian_Path = [], Hamiltonian_Cycle = [], Largest_Cycle_Size = 0\<rparr>))
     = [1, 2, 4, 3] \<and>
   Hamiltonian_Path (recurse [(1, 2), (2, 3), (3, 4), (2, 4)] 4 [1] 1
      \<lparr>Hamiltonian_Path = [], Hamiltonian_Cycle = [], Largest_Cycle_Size = 0\<rparr>)
     = [1, 2, 4, 3]"
  by code_simp

text \<open>
  C7 (amended). In \<open>hamilton_backtracking\<close> every visited sequence that reaches the full
  vertex count is recorded as the Hamiltonian path, whatever was recorded before. So the
  search from one start vertex leaves recorded the last full-length sequence it reached
  (and the path recorded before, if it reached none), and the path returned is the last
  full-length sequence reached over all start vertices tried (the empty list if there is
  none). Every sequence listed has the full vertex count and begins with a start vertex.
\<close>

theorem recorded_path_is_last_reached:
  "Hamiltonian_Path (recurse edges Num_Vertices [start] start st) =
     (if full_length_visits edges Num_Vertices [start] start st = [] then Hamiltonian_Path st
      else last (full_length_visits edges Num_Vertices [start] start st)) \<and>
   path (hamilton_backtracking vertices edges) =
     Some (if full_length_paths vertices edges = [] then []
           else last (full_length_paths vertices edges)) \<and>
   (\<forall>p\<in>set (full_length_paths vertices edges).
      length p = length vertices \<and> (\<exists>s\<in>set vertices. prefix [s] p))"
proof (intro conjI ballI)
  show "Hamiltonian_Path (recurse edges Num_Vertices [start] start st) =
     (if full_length_visits edges Num_Vertices [start] start st = [] then Hamiltonian_Path st
      else last (full_length_visits edges Num_Vertices [start] start st))"
    by (rule recorded_is_last_visit(1))
next
  show "path (hamilton_backtracking vertices edges) =
     Some (if full_length_paths vertices edges = [] then []
           else last (full_length_paths vertices edges))"
    using recorded_is_last_visit_starts [of edges "length vertices" vertices
        "\<lparr>Hamiltonian_Path = [], Hamiltonian_Cycle = [], Largest_Cycle_Size = 0\<rparr>"]
    by (simp add: backtracking_state full_length_paths_def Let_def)
next
  fix p
  assume "p \<in> set (full_length_paths vertices edges)"
  then show "length p = length vertices"
    by (simp add: full_length_paths_def full_length_visits_starts_sound)
next
  fix p
  assume "p \<in> set (full_length_paths vertices edges)"
  then show "\<exists>s\<in>set vertices. prefix [s] p"
    by (simp add: full_length_paths_def full_length_visits_starts_sound)
qed

theorem recorded_path_is_last_reached_witness:
  "full_length_visits [(1, 2), (2, 3), (3, 4), (2, 4)] 4 [1] 1
      \<lparr>Hamiltonian_Path = [], Hamiltonian_Cycle = [], Largest_Cycle_Size = 0\<rparr>
     = [[1, 2, 3, 4], [1, 2, 4, 3]] \<and>
   Hamiltonian_Path (recurse [(1, 2), (2, 3), (3, 4), (2, 4)] 4 [1] 1
      \<lparr>Hamiltonian_Path = [], Hamiltonian_Cycle = [], Largest_Cycle_Size = 0\<rparr>)
     = [1, 2, 4, 3] \<and>
   full_length_paths [1, 2, 3, 4] [(1, 2), (2, 3), (3, 4), (2, 4)]
     = [[1, 2, 3, 4], [1, 2, 4, 3], [3, 4, 2, 1], [4, 3, 2, 1]] \<and>
   path (hamilton_backtracking [1, 2, 3, 4] [(1, 2), (2, 3), (3, 4), (2, 4)])
     = Some [4, 3, 2, 1]"
proof -
  have a: "full_length_visits [(1, 2), (2, 3), (3, 4), (2, 4)] 4 [1] 1
      \<lparr>Hamiltonian_Path = [], Hamiltonian_Cycle = [], Largest_Cycle_Size = 0\<rparr>
     = [[1, 2, 3, 4], [1, 2, 4, 3]]"
    by code_simp
  have b: "full_length_paths [1, 2, 3, 4] [(1, 2), (2, 3), (3, 4), (2, 4)]
     = [[1, 2, 3, 4], [1, 2, 4, 3], [3, 4, 2, 1], [4, 3, 2, 1]]"
    by code_simp
  from recorded_path_is_last_reached
         [of "[(1, 2), (2, 3), (3, 4), (2, 4)]" 4 1
             "\<lparr>Hamiltonian_Path = [], Hamiltonian_Cycle = [], Largest_Cycle_Size = 0\<rparr>"
             "[1, 2, 3, 4]"]
  have "Hamiltonian_Path (recurse [(1, 2), (2, 3), (3, 4), (2, 4)] 4 [1] 1
      \<lparr>Hamiltonian_Path = [], Hamiltonian_Cycle = [], Largest_Cycle_Size = 0\<rparr>)
     = [1, 2, 4, 3]"
    and "path (hamilton_backtracking [1, 2, 3, 4] [(1, 2), (2, 3), (3, 4), (2, 4)])
     = Some [4, 3, 2, 1]"
    unfolding a b by simp_all
  with a b show ?thesis by blast
qed

text \<open>
  C1. Both algorithms are claimed to agree on \<open>path_found\<close>, \<open>cycle_found\<close> and the
  largest cycle size for every valid graph of at most 8 vertices. On the valid two-vertex
  graph with the single edge 1-2 they differ: \<open>hamilton_backtracking\<close> reports a cycle of
  size 2, \<open>hamilton_bruteforce\<close> reports none and size 0.
\<close>

theorem algorithms_disagree_on_single_edge:
  "valid_input [1, 2] [(1, 2)] \<and> length [1, 2 :: vertex] \<le> 8 \<and>
   path_found (hamilton_backtracking [1, 2] [(1, 2)]) \<and>
   path_found (hamilton_bruteforce [1, 2] [(1, 2)]) \<and>
   cycle_found (hamilton_backtracking [1, 2] [(1, 2)]) \<and>
   \<not> cycle_found (hamilton_bruteforce [1, 2] [(1, 2)]) \<and>
   largest_cycle_size (hamilton_backtracking [1, 2] [(1, 2)]) = 2 \<and>
   largest_cycle_size (hamilton_bruteforce [1, 2] [(1, 2)]) = 0"
  by code_simp

text \<open>
  C2. A graph with fewer than three vertices is claimed to yield no cycle and largest
  cycle size 0 in both algorithms. \<open>hamilton_bruteforce\<close> does so;
  \<open>hamilton_backtracking\<close>, on two vertices joined by an edge, returns the cycle
  2, 1, 2 and size 2.
\<close>

theorem two_vertices_reported_as_cycle:
  "length [2, 1 :: vertex] < 3 \<and>
   hamilton_backtracking [2, 1] [(2, 1)] =
     \<lparr>path_found = True, path = Some [2, 1], cycle_found = True, cycle = Some [2, 1, 2],
      largest_cycle_size = 2\<rparr> \<and>
   hamilton_bruteforce [2, 1] [(2, 1)] =
     \<lparr>path_found = True, path = Some [2, 1], cycle_found = False, cycle = None,
      largest_cycle_size = 0\<rparr>"
  by code_simp

text \<open>
  C3. The path and cycle fields are claimed to be the absent value exactly when the
  corresponding flag is false. \<open>hamilton_bruteforce\<close> returns the absent value;
  \<open>hamilton_backtracking\<close> returns the empty list instead, here on three vertices with the
  single edge 1-2, where neither a Hamiltonian path nor a cycle exists.
\<close>

theorem backtracking_returns_empty_lists:
  "hamilton_backtracking [1, 2, 3] [(1, 2)] =
     \<lparr>path_found = False, path = Some [], cycle_found = False, cycle = Some [],
      largest_cycle_size = 0\<rparr> \<and>
   hamilton_bruteforce [1, 2, 3] [(1, 2)] =
     \<lparr>path_found = False, path = None, cycle_found = False, cycle = None,
      largest_cycle_size = 0\<rparr>"
  by code_simp

text \<open>
  C5. Without a Hamiltonian cycle, the largest cycle size is claimed to be the size of the
  largest simple cycle of the graph, and 0 if there is none. The graph with vertices 1, 2
  and the edge 1-2 has no simple cycle, yet \<open>hamilton_backtracking\<close> returns size 2.
\<close>

theorem edge_counted_as_cycle:
  "valid_input [1, 2] [(1, 2)] \<and>
   (\<forall>c. \<not> simple_cycle [(1, 2)] [1, 2] c) \<and>
   largest_cycle_size (hamilton_backtracking [1, 2] [(1, 2)]) = 2"
proof (intro conjI allI)
  show "valid_input [1, 2] [(1, 2)]" by code_simp
  show "largest_cycle_size (hamilton_backtracking [1, 2] [(1, 2)]) = 2" by code_simp
  show "\<not> simple_cycle [(1, 2)] [1, 2] c" for c
    using simple_cycle_length [of "[(1, 2)]" "[1, 2]" c] by auto
qed

text \<open>
  C9. Scenario 3: vertices 1 to 5 with edges 1-5, 2-3, 3-5, 4-5. Both algorithms report no
  path, no cycle and largest cycle size 0; \<open>hamilton_bruteforce\<close> returns the absent value
  for path and cycle, \<open>hamilton_backtracking\<close> returns two empty lists.
\<close>

theorem scenario_three_results:
  "hamilton_backtracking [1, 2, 3, 4, 5] [(1, 5), (2, 3), (3, 5), (4, 5)] =
     \<lparr>path_found = False, path = Some [], cycle_found = False, cycle = Some [],
      largest_cycle_size = 0\<rparr> \<and>
   hamilton_bruteforce [1, 2, 3, 4, 5] [(1, 5), (2, 3), (3, 5), (4, 5)] =
     \<lparr>path_found = False, path = None, cycle_found = False, cycle = None,
      largest_cycle_size = 0\<rparr>"
  by code_simp

end
